theory Spec2Isabelle
  imports Complex_Main "HOL-Library.Sublist"
begin

chapter \<open>SDU battery preprocessing: cycle normalisation, capacity integration, outlier filter\<close>

text \<open>
  A shallow embedding of \<^verbatim>\<open>preprocess_SDU.py\<close>: the two numeric kernels
  \<^verbatim>\<open>organize_cycle_index\<close> and \<^verbatim>\<open>calc_Q\<close>, and the per-battery pipeline of
  \<^verbatim>\<open>SDUPreprocessor.process\<close>.

  Conventions of the model.
  \<^item> A numpy array is a list; an in-place write \<^verbatim>\<open>a[i] = v\<close> is \<open>a[i := v]\<close>.
  \<^item> A \<^verbatim>\<open>float64\<close> is idealised as a \<^typ>\<open>real\<close>: rounding, infinities and NaN
    are not modelled. The literal \<^verbatim>\<open>0.1\<close> is \<open>1 / 10\<close>.
  \<^item> A Python exception is a value \<open>Inl e\<close> of the result type \<open>error + 'a\<close>.
    Reading a list outside its range is \<open>Inl IndexError\<close>, as Python indexing has it
    (with the bounds checks of the \<^verbatim>\<open>@njit\<close> compiler switched off, its default, the same
    read is unchecked and its outcome is not specified at all).
\<close>

section \<open>Errors\<close>

datatype error = IndexError | ValueError

section \<open>Cycle-index normalisation: \<^verbatim>\<open>organize_cycle_index\<close>\<close>

text \<open>
  \<^verbatim>\<open>
  current_cycle, prev_value = cycle_index[0], cycle_index[0]
  for i in range(1, len(cycle_index)):
      if cycle_index[i] != prev_value:
          current_cycle += 1
          prev_value = cycle_index[i]
      cycle_index[i] = current_cycle
  return cycle_index
  \<close>
  The loop is \<open>oci_loop\<close>, started at \<open>i = 1\<close>; the array is overwritten in place while
  it is scanned. The element type only needs \<open>1\<close> and \<open>+\<close>, so the model covers
  unbounded integers as well as 64-bit ones that wrap around.
\<close>

function oci_loop :: "nat \<Rightarrow> 'a::{one,plus} list \<Rightarrow> 'a \<Rightarrow> 'a \<Rightarrow> 'a list" where
  "oci_loop i cycle_index current_cycle prev_value =
     (if i < length cycle_index then
        (if cycle_index ! i \<noteq> prev_value
         then oci_loop (Suc i) (cycle_index[i := current_cycle + 1])
                (current_cycle + 1) (cycle_index ! i)
         else oci_loop (Suc i) (cycle_index[i := current_cycle])
                current_cycle prev_value)
      else cycle_index)"
  by pat_completeness auto
termination
  by (relation "measure (\<lambda>(i, cycle_index, _, _). length cycle_index - i)") auto

declare oci_loop.simps [simp del]

definition organize_cycle_index :: "'a::{one,plus} list \<Rightarrow> error + 'a list" where
  "organize_cycle_index cycle_index =
     (case cycle_index of
        [] \<Rightarrow> Inl IndexError
      | first # _ \<Rightarrow> Inr (oci_loop 1 cycle_index first first))"

section \<open>Capacity integration: \<^verbatim>\<open>calc_Q\<close>\<close>

text \<open>
  \<^verbatim>\<open>
  Q = np.zeros_like(I)
  for i in range(1, len(I)):
      if is_charge and I[i] > 0:
          Q[i] = Q[i-1] + I[i] * (t[i] - t[i-1]) / 3600
      elif not is_charge and I[i] < 0:
          Q[i] = Q[i-1] - I[i] * (t[i] - t[i-1]) / 3600
      else:
          Q[i] = Q[i-1]
  return Q
  \<close>
  \<open>Q\<close> has the length of \<open>I\<close>, so its reads and writes are in range; \<open>t\<close> is read only in
  the two integrating branches, and a \<open>t\<close> shorter than \<open>I\<close> is an \<open>IndexError\<close> there.
\<close>

function calc_Q_loop :: "real list \<Rightarrow> real list \<Rightarrow> bool \<Rightarrow> nat \<Rightarrow> real list \<Rightarrow> error + real list" where
  "calc_Q_loop I t is_charge i Q =
     (if i < length I then
        (if is_charge \<and> I ! i > 0 then
           (if i < length t
            then calc_Q_loop I t is_charge (Suc i)
                   (Q[i := Q ! (i - 1) + I ! i * (t ! i - t ! (i - 1)) / 3600])
            else Inl IndexError)
         else if \<not> is_charge \<and> I ! i < 0 then
           (if i < length t
            then calc_Q_loop I t is_charge (Suc i)
                   (Q[i := Q ! (i - 1) - I ! i * (t ! i - t ! (i - 1)) / 3600])
            else Inl IndexError)
         else calc_Q_loop I t is_charge (Suc i) (Q[i := Q ! (i - 1)]))
      else Inr Q)"
  by pat_completeness auto
termination
  by (relation "measure (\<lambda>(I, t, is_charge, i, Q). length I - i)") auto

declare calc_Q_loop.simps [simp del]

definition calc_Q :: "real list \<Rightarrow> real list \<Rightarrow> bool \<Rightarrow> error + real list" where
  "calc_Q I t is_charge = calc_Q_loop I t is_charge 1 (replicate (length I) 0)"

text \<open>
  The increment the specification describes for sample \<open>i\<close>, given the running total \<open>q\<close>:
  add \<open>current[i] * (time[i] - time[i-1]) / 3600\<close> for a positive current under the charge
  flag, add \<open>- current[i] * (time[i] - time[i-1]) / 3600\<close> for a negative current under the
  discharge flag, and carry \<open>q\<close> forward otherwise. It is written from the
  specification's words, to be compared with the loop above.
\<close>

definition capacity_step :: "bool \<Rightarrow> real list \<Rightarrow> real list \<Rightarrow> nat \<Rightarrow> real \<Rightarrow> real" where
  "capacity_step is_charge I t i q =
     (if is_charge \<and> I ! i > 0 then q + I ! i * (t ! i - t ! (i - 1)) / 3600
      else if \<not> is_charge \<and> I ! i < 0 then q + (- I ! i) * (t ! i - t ! (i - 1)) / 3600
      else q)"

section \<open>Library functions the pipeline calls\<close>

text \<open>
  The pipeline calls \<^verbatim>\<open>numpy\<close>, \<^verbatim>\<open>scipy\<close> and \<^verbatim>\<open>pandas\<close>; these are not part of the
  repository and are modelled as their documentation describes them.
  \<^item> \<^verbatim>\<open>np.median\<close>: the middle element of the sorted array, the mean of the two middle
    elements for an even length. (The empty array, for which numpy answers NaN, is never
    passed: the pipeline leaves before, at \<^verbatim>\<open>len(Qd) == 0\<close>.)
  \<^item> \<^verbatim>\<open>scipy.signal.medfilt(volume, kernel_size)\<close>: raises \<^verbatim>\<open>ValueError\<close>
    (``Each element of kernel_size should be odd'') unless the kernel size is odd; otherwise
    element \<open>i\<close> of the result is the median of the window of \<open>kernel_size\<close> elements
    centred at \<open>i\<close>, the array being padded with zeros on both sides.
  \<^item> \<^verbatim>\<open>max\<close> of a Python list raises \<^verbatim>\<open>ValueError\<close> on the empty list.
  \<^item> \<^verbatim>\<open>np.mean\<close>: the sum divided by the length.
  \<^item> \<^verbatim>\<open>DataFrame.groupby(key)\<close>: one group per distinct key, the groups in ascending
    order of the key, the rows of a group in their order in the frame.
  \<^item> \<^verbatim>\<open>DataFrame.sort_values\<close> is \<open>sort_key\<close>, which keeps rows of equal key in
    their order.
\<close>

definition median :: "real list \<Rightarrow> real" where
  "median a =
     (let s = sort a; n = length a
      in if n mod 2 = 1 then s ! (n div 2)
         else (s ! (n div 2 - 1) + s ! (n div 2)) / 2)"

definition medfilt :: "real list \<Rightarrow> nat \<Rightarrow> error + real list" where
  "medfilt volume kernel_size =
     (if kernel_size mod 2 \<noteq> 1 then Inl ValueError
      else let h = kernel_size div 2;
               padded = replicate h 0 @ volume @ replicate h 0
           in Inr (map (\<lambda>i. sort (take kernel_size (drop i padded)) ! h)
                     [0..<length volume]))"

fun py_max :: "real list \<Rightarrow> error + real" where
  "py_max [] = Inl ValueError"
| "py_max (x # xs) = Inr (fold max xs x)"

definition mean :: "real list \<Rightarrow> real" where
  "mean a = sum_list a / real (length a)"

definition groupby :: "('r \<Rightarrow> 'k::linorder) \<Rightarrow> 'r list \<Rightarrow> ('k \<times> 'r list) list" where
  "groupby key df =
     map (\<lambda>k. (k, filter (\<lambda>r. key r = k) df)) (sort (remdups (map key df)))"

section \<open>Data\<close>

text \<open>
  A row of an input file carries the columns \<^verbatim>\<open>Battery_ID\<close>, \<^verbatim>\<open>Cycle_Index\<close>,
  \<^verbatim>\<open>Test_Time(s)\<close>, \<^verbatim>\<open>Current(A)\<close> and \<^verbatim>\<open>Voltage(V)\<close>; the constant \<^verbatim>\<open>date\<close>
  column the code adds plays no part and is left out. \<open>CycleData\<close> and \<open>BatteryData\<close>
  have the fields the code sets. The cell name \<^verbatim>\<open>f"Battery_{battery_id}"\<close> with its
  prefix \<^verbatim>\<open>CSV_\<close> is the constructor \<open>CSV_Battery\<close>. The unconditional
  \<^verbatim>\<open>print\<close> calls are the messages of the log \<open>printed\<close>; the store written by
  \<^verbatim>\<open>dump_single_file\<close> is the list \<open>dumped\<close>.
\<close>

record RawSample =
  Battery_ID :: int
  Cycle_Index :: int
  Test_Time_s :: real
  Current_A :: real
  Voltage_V :: real

record CycleData =
  cycle_number :: nat
  voltage_in_V :: "real list"
  current_in_A :: "real list"
  time_in_s :: "real list"
  charge_capacity_in_Ah :: "real list"
  discharge_capacity_in_Ah :: "real list"

datatype cell_name = CSV_Battery int

record BatteryData =
  cell_id :: cell_name
  form_factor :: string
  anode_material :: string
  cathode_material :: string
  cycle_data :: "CycleData list"
  nominal_capacity_in_Ah :: real
  max_voltage_limit_in_V :: real
  min_voltage_limit_in_V :: real
  SOC_interval :: "real \<times> real"

datatype message =
    No_CSV_files
  | Error_reading string
  | No_valid_cycles cell_name
  | No_clean_cycles cell_name

record run_state =
  dumped :: "BatteryData list"
  process_batteries_num :: nat
  skip_batteries_num :: nat
  printed :: "message list"

section \<open>Building the cycles of one battery\<close>

text \<open>
  Lines 62 to 94 of \<^verbatim>\<open>process\<close>: sort the rows of the battery by test time, replace the
  cycle-index column by its normalisation, group the rows by the normalised index, and
  build one \<open>CycleData\<close> per group, numbered from 0 in the order of the groups, with the
  discharge and the charge capacity computed by \<open>calc_Q\<close>.
\<close>

definition normalize_cycle_index :: "RawSample list \<Rightarrow> error + RawSample list" where
  "normalize_cycle_index battery_df =
     (case organize_cycle_index (map Cycle_Index battery_df) of
        Inl e \<Rightarrow> Inl e
      | Inr ci \<Rightarrow> Inr (map (\<lambda>(r, c). r\<lparr>Cycle_Index := c\<rparr>) (zip battery_df ci)))"

definition make_cycle :: "nat \<Rightarrow> RawSample list \<Rightarrow> error + CycleData" where
  "make_cycle cycle_index cycle_df =
     (let I = map Current_A cycle_df;
          t = map Test_Time_s cycle_df;
          V = map Voltage_V cycle_df
      in case calc_Q I t False of
           Inl e \<Rightarrow> Inl e
         | Inr Qd \<Rightarrow>
             (case calc_Q I t True of
                Inl e \<Rightarrow> Inl e
              | Inr Qc \<Rightarrow>
                  Inr \<lparr>cycle_number = cycle_index, voltage_in_V = V, current_in_A = I,
                       time_in_s = t, charge_capacity_in_Ah = Qc,
                       discharge_capacity_in_Ah = Qd\<rparr>))"

fun make_cycles :: "nat \<Rightarrow> (int \<times> RawSample list) list \<Rightarrow> error + CycleData list" where
  "make_cycles cycle_index [] = Inr []"
| "make_cycles cycle_index ((key, cycle_df) # groups) =
     (case make_cycle cycle_index cycle_df of
        Inl e \<Rightarrow> Inl e
      | Inr c \<Rightarrow>
          (case make_cycles (Suc cycle_index) groups of
             Inl e \<Rightarrow> Inl e
           | Inr cs \<Rightarrow> Inr (c # cs)))"

definition build_cycles :: "RawSample list \<Rightarrow> error + CycleData list" where
  "build_cycles battery_df =
     (case normalize_cycle_index (sort_key Test_Time_s battery_df) of
        Inl e \<Rightarrow> Inl e
      | Inr processed_df \<Rightarrow> make_cycles 0 (groupby Cycle_Index processed_df))"

section \<open>The outlier filter\<close>

text \<open>
  \<^verbatim>\<open>
  Qd = []
  for cycle_data in cycles:
      if len(cycle_data.discharge_capacity_in_Ah) > 0:
          Qd.append(max(cycle_data.discharge_capacity_in_Ah))
      else:
          Qd.append(0.0)
  ...
  if len(Qd) >= 21:
      Qd_med = medfilt(Qd, 21)
  else:
      Qd_med = medfilt(Qd, min(len(Qd), 5))
  ths = np.median(abs(np.array(Qd) - Qd_med))
  should_keep = abs(np.array(Qd) - Qd_med) < 3 * ths
  clean_cycles, index = [], 0
  for i in range(len(cycles)):
      if should_keep[i] and Qd[i] > 0.1:
          index += 1
          cycles[i].cycle_number = index
          clean_cycles.append(cycles[i])
  \<close>
  \<open>peak\<close> is one element of \<open>Qd\<close>, \<open>smooth\<close> the two calls of the median filter,
  \<open>clean_loop\<close> the last loop; \<open>should_keep\<close> and \<open>Qd\<close> have the length of \<open>cycles\<close>.
\<close>

definition peak :: "CycleData \<Rightarrow> real" where
  "peak cycle =
     (case discharge_capacity_in_Ah cycle of
        [] \<Rightarrow> 0
      | q # qs \<Rightarrow> fold max qs q)"

definition smooth :: "real list \<Rightarrow> error + real list" where
  "smooth Qd =
     (if length Qd \<ge> 21 then medfilt Qd 21
      else medfilt Qd (min (length Qd) 5))"

definition abs_dev :: "real list \<Rightarrow> real list \<Rightarrow> real list" where
  "abs_dev Qd Qd_med = map (\<lambda>(q, m). \<bar>q - m\<bar>) (zip Qd Qd_med)"

function clean_loop ::
  "CycleData list \<Rightarrow> bool list \<Rightarrow> real list \<Rightarrow> nat \<Rightarrow> CycleData list \<Rightarrow> nat \<Rightarrow> CycleData list"
where
  "clean_loop cycles should_keep Qd i clean_cycles index =
     (if i < length cycles then
        (if should_keep ! i \<and> Qd ! i > 1 / 10
         then clean_loop cycles should_keep Qd (Suc i)
                (clean_cycles @ [(cycles ! i)\<lparr>cycle_number := index + 1\<rparr>]) (index + 1)
         else clean_loop cycles should_keep Qd (Suc i) clean_cycles index)
      else clean_cycles)"
  by pat_completeness auto
termination
  by (relation "measure (\<lambda>(cycles, should_keep, Qd, i, clean_cycles, index). length cycles - i)")
     auto

declare clean_loop.simps [simp del]

definition outlier_filter :: "CycleData list \<Rightarrow> error + CycleData list" where
  "outlier_filter cycles =
     (let Qd = map peak cycles
      in case smooth Qd of
           Inl e \<Rightarrow> Inl e
         | Inr Qd_med \<Rightarrow>
             (let ths = median (abs_dev Qd Qd_med);
                  should_keep = map (\<lambda>d. d < 3 * ths) (abs_dev Qd Qd_med)
              in Inr (clean_loop cycles should_keep Qd 0 [] 0)))"

section \<open>Assembling and persisting one battery\<close>

text \<open>
  Lines 128 to 148, then the loops over the battery groups of a file and over the files.
  \<^verbatim>\<open>check_processed_file\<close> belongs to the base class, outside the repository: it is a
  parameter of the model, a predicate on the records persisted so far and the cell name.
  \<^verbatim>\<open>pd.read_csv\<close> either raises, and the file is \<open>None\<close>, or yields the rows. The only
  \<^verbatim>\<open>try\<close> of \<^verbatim>\<open>process\<close> encloses \<^verbatim>\<open>pd.read_csv\<close>; every other exception leaves
  \<^verbatim>\<open>process\<close>.
\<close>

fun initial_capacities :: "CycleData list \<Rightarrow> error + real list" where
  "initial_capacities [] = Inr []"
| "initial_capacities (cycle # rest) =
     (case py_max (discharge_capacity_in_Ah cycle) of
        Inl e \<Rightarrow> Inl e
      | Inr m \<Rightarrow>
          (case initial_capacities rest of
             Inl e \<Rightarrow> Inl e
           | Inr ms \<Rightarrow> Inr (m # ms)))"

definition assemble :: "cell_name \<Rightarrow> CycleData list \<Rightarrow> error + BatteryData" where
  "assemble name clean_cycles =
     (case initial_capacities (take 5 clean_cycles) of
        Inl e \<Rightarrow> Inl e
      | Inr caps \<Rightarrow>
          Inr \<lparr>cell_id = name, form_factor = ''unknown'', anode_material = ''unknown'',
               cathode_material = ''unknown'', cycle_data = clean_cycles,
               nominal_capacity_in_Ah = (if caps \<noteq> [] then mean caps else 1),
               max_voltage_limit_in_V = 42 / 10, min_voltage_limit_in_V = 27 / 10,
               SOC_interval = (0, 1)\<rparr>)"

definition dump_single_file :: "run_state \<Rightarrow> BatteryData \<Rightarrow> run_state" where
  "dump_single_file st battery = st\<lparr>dumped := dumped st @ [battery]\<rparr>"

definition process_battery ::
  "(BatteryData list \<Rightarrow> cell_name \<Rightarrow> bool) \<Rightarrow> run_state \<Rightarrow> int \<times> RawSample list
     \<Rightarrow> error + run_state"
where
  "process_battery check_processed_file st grp =
     (case grp of (battery_id, battery_df) \<Rightarrow>
        if check_processed_file (dumped st) (CSV_Battery battery_id)
        then Inr (st\<lparr>skip_batteries_num := skip_batteries_num st + 1\<rparr>)
        else
          (case build_cycles battery_df of
             Inl e \<Rightarrow> Inl e
           | Inr cycles \<Rightarrow>
               if length (map peak cycles) = 0
               then Inr (st\<lparr>printed := printed st @ [No_valid_cycles (CSV_Battery battery_id)]\<rparr>)
               else
                 (case outlier_filter cycles of
                    Inl e \<Rightarrow> Inl e
                  | Inr clean_cycles \<Rightarrow>
                      if length clean_cycles = 0
                      then Inr (st\<lparr>printed :=
                                  printed st @ [No_clean_cycles (CSV_Battery battery_id)]\<rparr>)
                      else
                        (case assemble (CSV_Battery battery_id) clean_cycles of
                           Inl e \<Rightarrow> Inl e
                         | Inr battery \<Rightarrow>
                             Inr ((dump_single_file st battery)
                                    \<lparr>process_batteries_num := process_batteries_num st + 1\<rparr>)))))"

fun process_batteries ::
  "(BatteryData list \<Rightarrow> cell_name \<Rightarrow> bool) \<Rightarrow> run_state \<Rightarrow> (int \<times> RawSample list) list
     \<Rightarrow> error + run_state"
where
  "process_batteries check_processed_file st [] = Inr st"
| "process_batteries check_processed_file st (grp # groups) =
     (case process_battery check_processed_file st grp of
        Inl e \<Rightarrow> Inl e
      | Inr st' \<Rightarrow> process_batteries check_processed_file st' groups)"

type_synonym csv_file = "string \<times> RawSample list option"

fun process_files ::
  "(BatteryData list \<Rightarrow> cell_name \<Rightarrow> bool) \<Rightarrow> run_state \<Rightarrow> csv_file list
     \<Rightarrow> error + run_state"
where
  "process_files check_processed_file st [] = Inr st"
| "process_files check_processed_file st ((name, None) # raw_files) =
     process_files check_processed_file (st\<lparr>printed := printed st @ [Error_reading name]\<rparr>)
       raw_files"
| "process_files check_processed_file st ((name, Some df) # raw_files) =
     (case process_batteries check_processed_file st (groupby Battery_ID df) of
        Inl e \<Rightarrow> Inl e
      | Inr st' \<Rightarrow> process_files check_processed_file st' raw_files)"

definition process ::
  "(BatteryData list \<Rightarrow> cell_name \<Rightarrow> bool) \<Rightarrow> csv_file list
     \<Rightarrow> error + ((nat \<times> nat) \<times> BatteryData list \<times> message list)"
where
  "process check_processed_file raw_files =
     (if raw_files = [] then Inr ((0, 0), [], [No_CSV_files])
      else
        (case process_files check_processed_file
                \<lparr>dumped = [], process_batteries_num = 0, skip_batteries_num = 0, printed = []\<rparr>
                raw_files of
           Inl e \<Rightarrow> Inl e
         | Inr st \<Rightarrow>
             Inr ((process_batteries_num st, skip_batteries_num st), dumped st, printed st)))"

section \<open>What a run leaves behind\<close>

text \<open>
  \<open>outcome\<close> is a run state without its log: the records persisted and the two counters.
  \<open>result_of\<close> is what \<open>process\<close> hands back and persists, without the log.
\<close>

definition outcome :: "run_state \<Rightarrow> BatteryData list \<times> nat \<times> nat" where
  "outcome st = (dumped st, process_batteries_num st, skip_batteries_num st)"

definition result_of ::
  "(nat \<times> nat) \<times> BatteryData list \<times> message list \<Rightarrow> (nat \<times> nat) \<times> BatteryData list" where
  "result_of r = (fst r, fst (snd r))"

section \<open>Example batteries\<close>

text \<open>
  Inputs for the concrete evaluations below. \<open>sample_cycle b c t0 p\<close> is a cycle of two
  rows of battery \<open>b\<close> with raw cycle index \<open>c\<close>: a rest sample at time \<open>t0\<close> and a discharge
  sample of \<open>- p\<close> amperes one hour later, so that the cycle discharges \<open>p\<close> Ah;
  \<open>cycle_of n t0 p\<close> is the cycle record \<open>build_cycles\<close> makes of it. \<open>battery_five\<close> has
  the peaks 2, 1, 3, 0.1 and 10 Ah, \<open>battery_three\<close> three equal cycles of 1 Ah,
  \<open>battery_two\<close> two cycles. \<open>no_check\<close> and \<open>all_check\<close> are the skip/resume checks
  that report no battery, and every battery, as already processed.
\<close>

definition sample_cycle :: "int \<Rightarrow> int \<Rightarrow> real \<Rightarrow> real \<Rightarrow> RawSample list" where
  "sample_cycle b c t0 p =
     [\<lparr>Battery_ID = b, Cycle_Index = c, Test_Time_s = t0, Current_A = 0, Voltage_V = 4\<rparr>,
      \<lparr>Battery_ID = b, Cycle_Index = c, Test_Time_s = t0 + 3600, Current_A = - p, Voltage_V = 3\<rparr>]"

definition battery_five :: "RawSample list" where
  "battery_five =
     sample_cycle 1 1 0 2 @ sample_cycle 1 2 7200 1 @ sample_cycle 1 3 14400 3 @
     sample_cycle 1 4 21600 (1 / 10) @ sample_cycle 1 5 28800 10"

definition cycle_of :: "nat \<Rightarrow> real \<Rightarrow> real \<Rightarrow> CycleData" where
  "cycle_of n t0 p =
     \<lparr>cycle_number = n, voltage_in_V = [4, 3], current_in_A = [0, - p],
      time_in_s = [t0, t0 + 3600], charge_capacity_in_Ah = [0, 0],
      discharge_capacity_in_Ah = [0, p]\<rparr>"

definition cycles_five :: "CycleData list" where
  "cycles_five = [cycle_of 0 0 2, cycle_of 1 7200 1, cycle_of 2 14400 3,
                  cycle_of 3 21600 (1 / 10), cycle_of 4 28800 10]"

definition battery_three :: "RawSample list" where
  "battery_three = sample_cycle 2 1 0 1 @ sample_cycle 2 2 7200 1 @ sample_cycle 2 3 14400 1"

definition battery_two :: "RawSample list" where
  "battery_two = sample_cycle 3 1 0 2 @ sample_cycle 3 2 7200 1"

definition cycles_three :: "CycleData list" where
  "cycles_three = [cycle_of 0 0 1, cycle_of 1 7200 1, cycle_of 2 14400 1]"

definition cycles_two :: "CycleData list" where
  "cycles_two = [cycle_of 0 0 2, cycle_of 1 7200 1]"

definition no_check :: "BatteryData list \<Rightarrow> cell_name \<Rightarrow> bool" where
  "no_check d c = False"


definition st0 :: run_state where
  "st0 = \<lparr>dumped = [], process_batteries_num = 0, skip_batteries_num = 0, printed = []\<rparr>"

section \<open>The filter rule as the specification words it\<close>

text \<open>
  Written from the specification, to be compared with \<open>outlier_filter\<close>: the positions
  kept are those whose peak deviates from the smoothed peak by less than three times the
  threshold, the median of all deviations, and whose peak exceeds 0.1 Ah; the survivors
  are numbered from 1 in their order.
\<close>

definition kept_positions :: "real list \<Rightarrow> real list \<Rightarrow> nat list" where
  "kept_positions Qd Qd_med =
     filter (\<lambda>i. \<bar>Qd ! i - Qd_med ! i\<bar> < 3 * median (abs_dev Qd Qd_med) \<and> Qd ! i > 1 / 10)
       [0..<length Qd]"

definition renumber :: "CycleData list \<Rightarrow> nat list \<Rightarrow> CycleData list" where
  "renumber cycles ps = map (\<lambda>(k, i). (cycles ! i)\<lparr>cycle_number := k + 1\<rparr>) (enumerate 0 ps)"

section \<open>Properties of the cycle-index normalisation\<close>

lemma oci_loop_step:
  "i < length ci \<Longrightarrow> oci_loop i ci cc pv =
     (if ci ! i \<noteq> pv
      then oci_loop (Suc i) (ci[i := cc + 1]) (cc + 1) (ci ! i)
      else oci_loop (Suc i) (ci[i := cc]) cc pv)"
  by (subst oci_loop.simps) simp

lemma oci_loop_stop: "\<not> i < length ci \<Longrightarrow> oci_loop i ci cc pv = ci"
  by (subst oci_loop.simps) simp

lemma oci_loop_length: "length (oci_loop i arr cur prev) = length arr"
  by (induction i arr cur prev rule: oci_loop.induct)
     (subst oci_loop.simps, simp)

text \<open>
  The loop invariant. Entering the loop at position \<open>i\<close> with \<open>cur\<close> the value written
  at \<open>i - 1\<close> and \<open>prev\<close> the raw value that stood at \<open>i - 1\<close>, the positions below \<open>i\<close>
  are left alone, and every later position gets its predecessor's value, plus one where
  the raw values differ.
\<close>

lemma oci_loop_spec:
  "0 < i \<Longrightarrow> i \<le> length arr \<Longrightarrow> cur = arr ! (i - 1) \<Longrightarrow>
   (\<forall>j<i. oci_loop i arr cur prev ! j = arr ! j) \<and>
   (\<forall>j. i \<le> j \<and> j < length arr \<longrightarrow>
        oci_loop i arr cur prev ! j =
          (if arr ! j \<noteq> (if j = i then prev else arr ! (j - 1))
           then oci_loop i arr cur prev ! (j - 1) + 1
           else oci_loop i arr cur prev ! (j - 1)))"
proof (induction i arr cur prev rule: oci_loop.induct)
  case (1 i arr cur prev)
  show ?case
  proof (cases "i < length arr")
    case False
    then have "oci_loop i arr cur prev = arr"
      by (subst oci_loop.simps) simp
    then show ?thesis
    proof (intro conjI allI impI)
      fix j assume "i \<le> j \<and> j < length arr"
      with False have False by linarith
      then show "oci_loop i arr cur prev ! j =
          (if arr ! j \<noteq> (if j = i then prev else arr ! (j - 1))
           then oci_loop i arr cur prev ! (j - 1) + 1
           else oci_loop i arr cur prev ! (j - 1))" ..
    qed simp
  next
    case True
    define c' where "c' = (if arr ! i \<noteq> prev then cur + 1 else cur)"
    define R where "R = oci_loop (Suc i) (arr[i := c']) c' (arr ! i)"
    have R: "oci_loop i arr cur prev = R"
      using True by (subst oci_loop.simps) (auto simp: R_def c'_def)
    have IH: "(\<forall>j<Suc i. R ! j = arr[i := c'] ! j) \<and>
       (\<forall>j. Suc i \<le> j \<and> j < length (arr[i := c']) \<longrightarrow>
          R ! j = (if arr[i := c'] ! j \<noteq> (if j = Suc i then arr ! i else arr[i := c'] ! (j - 1))
                   then R ! (j - 1) + 1 else R ! (j - 1)))"
    proof (cases "arr ! i \<noteq> prev")
      case True
      with "1.IH"(1)[of] \<open>i < length arr\<close> show ?thesis
        unfolding R_def c'_def by simp
    next
      case False
      with "1.IH"(2)[of] \<open>i < length arr\<close> show ?thesis
        unfolding R_def c'_def by simp
    qed
    have pre: "\<forall>j<i. R ! j = arr ! j"
    proof (intro allI impI)
      fix j assume "j < i"
      then have "R ! j = arr[i := c'] ! j" using IH by simp
      then show "R ! j = arr ! j" using \<open>j < i\<close> by simp
    qed
    have Ri: "R ! i = c'" using IH True by simp
    have Rp: "R ! (i - 1) = cur"
      using pre "1.prems" by simp
    have post: "R ! j = (if arr ! j \<noteq> (if j = i then prev else arr ! (j - 1))
           then R ! (j - 1) + 1 else R ! (j - 1))" if "i \<le> j" "j < length arr" for j
    proof (cases "j = i")
      case True
      then show ?thesis using Ri Rp by (simp add: c'_def)
    next
      case False
      with that have "Suc i \<le> j" by simp
      moreover have "arr[i := c'] ! j = arr ! j" using False by simp
      moreover have "j \<noteq> Suc i \<Longrightarrow> arr[i := c'] ! (j - 1) = arr ! (j - 1)"
        using \<open>Suc i \<le> j\<close> by simp
      moreover have "R ! j = (if arr[i := c'] ! j \<noteq> (if j = Suc i then arr ! i else arr[i := c'] ! (j - 1))
                   then R ! (j - 1) + 1 else R ! (j - 1))"
        using IH \<open>Suc i \<le> j\<close> that by simp
      ultimately show ?thesis using False by (cases "j = Suc i") simp_all
    qed
    show ?thesis unfolding R
    proof (intro conjI allI impI)
      fix j assume "j < i" then show "R ! j = arr ! j" using pre by simp
    next
      fix j assume "i \<le> j \<and> j < length arr"
      then show "R ! j = (if arr ! j \<noteq> (if j = i then prev else arr ! (j - 1))
           then R ! (j - 1) + 1 else R ! (j - 1))" using post[of j] by simp
    qed
  qed
qed

lemma organize_cycle_index_nonempty:
  assumes ne: "xs \<noteq> []"
  shows "\<exists>ys. organize_cycle_index xs = Inr ys \<and> length ys = length xs \<and> ys ! 0 = xs ! 0 \<and>
      (\<forall>i. 0 < i \<and> i < length xs \<longrightarrow>
         ys ! i = (if xs ! i \<noteq> xs ! (i - 1) then ys ! (i - 1) + 1 else ys ! (i - 1)))"
proof -
  from ne obtain x rest where xs: "xs = x # rest" by (cases xs) auto
  define ys where "ys = oci_loop 1 xs x x"
  have "0 < (1::nat)" "1 \<le> length xs" "x = xs ! (1 - 1)" using xs by auto
  from oci_loop_spec[OF this, of x]
  have a: "\<forall>j<1. ys ! j = xs ! j"
    and b: "\<forall>j. 1 \<le> j \<and> j < length xs \<longrightarrow>
        ys ! j = (if xs ! j \<noteq> (if j = 1 then x else xs ! (j - 1))
           then ys ! (j - 1) + 1 else ys ! (j - 1))"
    unfolding ys_def by blast+
  have x0: "xs ! 0 = x" using xs by simp
  have c: "ys ! i = (if xs ! i \<noteq> xs ! (i - 1) then ys ! (i - 1) + 1 else ys ! (i - 1))"
    if "0 < i" "i < length xs" for i
  proof (cases "i = 1")
    case True then show ?thesis using b that x0 by simp
  next
    case False then show ?thesis using b that by simp
  qed
  have "organize_cycle_index xs = Inr ys"
    by (simp add: organize_cycle_index_def xs ys_def)
  moreover have "length ys = length xs" by (simp add: ys_def oci_loop_length)
  moreover have "ys ! 0 = xs ! 0" using a by simp
  ultimately show ?thesis using c by simp
qed

text \<open>
  Claim C4. For a non-empty raw sequence the normalisation returns a sequence of the same
  length whose first element is the first raw value and whose element at every later
  position is its predecessor plus one where the raw value differs from the raw value
  before it, and its predecessor unchanged elsewhere. The raw sequence
  \<open>[1,1,2,2,2,3,1]\<close> becomes \<open>[1,1,2,2,2,3,4]\<close>.
\<close>

theorem organize_cycle_index_increments:
  "(xs \<noteq> [] \<longrightarrow>
      (\<exists>ys. organize_cycle_index xs = Inr ys \<and> length ys = length xs \<and> ys ! 0 = xs ! 0 \<and>
         (\<forall>i. 0 < i \<and> i < length xs \<longrightarrow>
            ys ! i = (if xs ! i \<noteq> xs ! (i - 1) then ys ! (i - 1) + 1 else ys ! (i - 1))))) \<and>
   organize_cycle_index [1, 1, 2, 2, 2, 3, 1 :: int] = Inr [1, 1, 2, 2, 2, 3, 4]"
proof (intro conjI impI)
  assume "xs \<noteq> []"
  then show "\<exists>ys. organize_cycle_index xs = Inr ys \<and> length ys = length xs \<and> ys ! 0 = xs ! 0 \<and>
         (\<forall>i. 0 < i \<and> i < length xs \<longrightarrow>
            ys ! i = (if xs ! i \<noteq> xs ! (i - 1) then ys ! (i - 1) + 1 else ys ! (i - 1)))"
    by (rule organize_cycle_index_nonempty)
next
  show "organize_cycle_index [1, 1, 2, 2, 2, 3, 1 :: int] = Inr [1, 1, 2, 2, 2, 3, 4]"
    by (simp add: organize_cycle_index_def oci_loop_step oci_loop_stop)
qed

theorem organize_cycle_index_increments_witness:
  "[4, 4, 9 :: int] \<noteq> [] \<and>
   (\<exists>ys. organize_cycle_index [4, 4, 9 :: int] = Inr ys \<and> length ys = 3 \<and> ys ! 0 = 4 \<and>
      ys ! 1 = ys ! 0 \<and> ys ! 2 = ys ! 1 + 1)"
proof -
  have ne: "[4, 4, 9 :: int] \<noteq> []" by simp
  from organize_cycle_index_increments[of "[4, 4, 9 :: int]"] ne
  obtain ys where ys: "organize_cycle_index [4, 4, 9 :: int] = Inr ys" "length ys = 3"
      "ys ! 0 = 4"
    and step: "\<forall>i. 0 < i \<and> i < 3 \<longrightarrow>
          ys ! i = (if [4, 4, 9 :: int] ! i \<noteq> [4, 4, 9] ! (i - 1)
                    then ys ! (i - 1) + 1 else ys ! (i - 1))"
    by auto
  from step have "ys ! 1 = ys ! 0" by simp
  moreover from step have "ys ! 2 = (if [4, 4, 9 :: int] ! 2 \<noteq> [4, 4, 9] ! (2 - 1)
                    then ys ! (2 - 1) + 1 else ys ! (2 - 1))" by simp
  then have "ys ! 2 = ys ! 1 + 1" by simp
  ultimately show ?thesis using ne ys by blast
qed



section \<open>Properties of the capacity integration\<close>

lemma calc_Q_loop_step:
  "i < length I \<Longrightarrow> i < length t \<Longrightarrow>
   calc_Q_loop I t c i Q = calc_Q_loop I t c (Suc i) (Q[i := capacity_step c I t i (Q ! (i - 1))])"
  by (subst calc_Q_loop.simps) (simp add: capacity_step_def)

lemma calc_Q_loop_stop: "\<not> i < length I \<Longrightarrow> calc_Q_loop I t c i Q = Inr Q"
  by (subst calc_Q_loop.simps) simp

lemma calc_Q_loop_spec:
  "0 < i \<Longrightarrow> length Q = length I \<Longrightarrow> length t = length I \<Longrightarrow>
   \<exists>Q'. calc_Q_loop I t c i Q = Inr Q' \<and> length Q' = length I \<and>
     (\<forall>j<i. Q' ! j = Q ! j) \<and>
     (\<forall>j. i \<le> j \<and> j < length I \<longrightarrow> Q' ! j = capacity_step c I t j (Q' ! (j - 1)))"
proof (induction I t c i Q rule: calc_Q_loop.induct)
  case (1 I t c i Q)
  show ?case
  proof (cases "i < length I")
    case False
    then have "calc_Q_loop I t c i Q = Inr Q" by (rule calc_Q_loop_stop)
    moreover have "\<forall>j. i \<le> j \<and> j < length I \<longrightarrow> Q ! j = capacity_step c I t j (Q ! (j - 1))"
      using False by simp
    ultimately show ?thesis using "1.prems" by simp
  next
    case True
    define v where "v = capacity_step c I t i (Q ! (i - 1))"
    have it: "i < length t" using True "1.prems" by simp
    have unf: "calc_Q_loop I t c i Q = calc_Q_loop I t c (Suc i) (Q[i := v])"
      unfolding v_def using True it by (rule calc_Q_loop_step)
    have "\<exists>Q'. calc_Q_loop I t c (Suc i) (Q[i := v]) = Inr Q' \<and> length Q' = length I \<and>
       (\<forall>j<Suc i. Q' ! j = Q[i := v] ! j) \<and>
       (\<forall>j. Suc i \<le> j \<and> j < length I \<longrightarrow> Q' ! j = capacity_step c I t j (Q' ! (j - 1)))"
    proof (cases "c \<and> I ! i > 0")
      case True
      then have "v = Q ! (i - 1) + I ! i * (t ! i - t ! (i - 1)) / 3600"
        by (simp add: v_def capacity_step_def)
      with "1.IH"(1)[OF \<open>i < length I\<close> True it] "1.prems" show ?thesis by simp
    next
      case nc: False
      show ?thesis
      proof (cases "\<not> c \<and> I ! i < 0")
        case True
        then have "v = Q ! (i - 1) - I ! i * (t ! i - t ! (i - 1)) / 3600"
          by (simp add: v_def capacity_step_def)
        with "1.IH"(2)[OF \<open>i < length I\<close> nc True it] "1.prems" show ?thesis by simp
      next
        case False
        then have "v = Q ! (i - 1)" using nc
          by (auto simp: v_def capacity_step_def)
        with "1.IH"(3)[OF \<open>i < length I\<close> nc False] "1.prems" show ?thesis by simp
      qed
    qed
    then obtain Q' where Q': "calc_Q_loop I t c (Suc i) (Q[i := v]) = Inr Q'" "length Q' = length I"
      and pre: "\<forall>j<Suc i. Q' ! j = Q[i := v] ! j"
      and post: "\<forall>j. Suc i \<le> j \<and> j < length I \<longrightarrow> Q' ! j = capacity_step c I t j (Q' ! (j - 1))"
      by blast
    have iQ: "i < length Q" using True "1.prems" by simp
    have a: "Q' ! j = Q ! j" if "j < i" for j
      using pre that by simp
    have "Q' ! i = v" using pre iQ by simp
    moreover have "Q' ! (i - 1) = Q ! (i - 1)" using a[of "i - 1"] "1.prems" by simp
    ultimately have b: "Q' ! i = capacity_step c I t i (Q' ! (i - 1))" by (simp add: v_def)
    have "Q' ! j = capacity_step c I t j (Q' ! (j - 1))" if "i \<le> j" "j < length I" for j
    proof (cases "j = i")
      case True then show ?thesis using b by simp
    next
      case False
      with that have "Suc i \<le> j" by simp
      then show ?thesis using post that by simp
    qed
    then show ?thesis using unf Q' a by simp
  qed
qed

lemma calc_Q_spec:
  assumes "length I = length t"
  shows "\<exists>Q. calc_Q I t c = Inr Q \<and> length Q = length I \<and> (I \<noteq> [] \<longrightarrow> Q ! 0 = 0) \<and>
     (\<forall>i. 0 < i \<and> i < length I \<longrightarrow> Q ! i = capacity_step c I t i (Q ! (i - 1)))"
proof -
  have "0 < (1::nat)" "length (replicate (length I) (0::real)) = length I" "length t = length I"
    using assms by simp_all
  from calc_Q_loop_spec[OF this, of c]
  obtain Q where Q: "calc_Q I t c = Inr Q" "length Q = length I"
    and pre: "\<forall>j<1. Q ! j = replicate (length I) (0::real) ! j"
    and post: "\<forall>j. 1 \<le> j \<and> j < length I \<longrightarrow> Q ! j = capacity_step c I t j (Q ! (j - 1))"
    unfolding calc_Q_def by blast
  have "I \<noteq> [] \<longrightarrow> Q ! 0 = 0" using pre by simp
  moreover have "\<forall>i. 0 < i \<and> i < length I \<longrightarrow> Q ! i = capacity_step c I t i (Q ! (i - 1))"
    using post by simp
  ultimately show ?thesis using Q by simp
qed

lemma capacity_step_discharge_mono:
  assumes "0 < i" "i < length t" "sorted t"
  shows "q \<le> capacity_step False I t i q"
proof -
  have "t ! (i - 1) \<le> t ! i"
    using assms by (simp add: sorted_nth_mono)
  then have "I ! i < 0 \<Longrightarrow> 0 \<le> (- I ! i) * (t ! i - t ! (i - 1)) / 3600"
    by (intro divide_nonneg_nonneg mult_nonneg_nonneg) simp_all
  then show ?thesis by (simp add: capacity_step_def)
qed



text \<open>
  Claim C8. Under the discharge flag, for sequences of equal length with a non-decreasing
  time sequence and every current sample at most 0, the discharge capacity sequence is
  non-decreasing: each element is at least the one before it (and none is negative, so
  the same holds of the magnitudes).
\<close>

theorem calc_Q_discharge_monotone:
  assumes "length I = length t" and "sorted t" and "\<forall>x\<in>set I. x \<le> 0"
  shows "\<exists>Q. calc_Q I t False = Inr Q \<and> length Q = length I \<and>
     (\<forall>i. 0 < i \<and> i < length Q \<longrightarrow> Q ! (i - 1) \<le> Q ! i) \<and> sorted Q \<and> (\<forall>q\<in>set Q. 0 \<le> q)"
proof -
  from calc_Q_spec[OF assms(1), of False]
  obtain Q where Q: "calc_Q I t False = Inr Q" "length Q = length I"
    and Q0: "I \<noteq> [] \<longrightarrow> Q ! 0 = 0"
    and step: "\<forall>i. 0 < i \<and> i < length I \<longrightarrow> Q ! i = capacity_step False I t i (Q ! (i - 1))"
    by blast
  have adj: "Q ! (i - 1) \<le> Q ! i" if "0 < i" "i < length Q" for i
  proof -
    have "i < length t" using that Q assms(1) by simp
    from capacity_step_discharge_mono[OF that(1) this assms(2), of "Q ! (i - 1)" I]
    show ?thesis using step that Q by simp
  qed
  have srt: "sorted Q"
    unfolding sorted_iff_nth_Suc using adj by fastforce
  have nonneg: "0 \<le> q" if "q \<in> set Q" for q
  proof -
    from that obtain k where k: "k < length Q" "q = Q ! k" by (auto simp: in_set_conv_nth)
    then have "I \<noteq> []" using Q by auto
    then have "Q ! 0 = 0" using Q0 by simp
    moreover have "Q ! 0 \<le> Q ! k" using srt k by (simp add: sorted_nth_mono)
    ultimately show ?thesis using k by simp
  qed
  show ?thesis using Q adj srt nonneg by auto
qed

theorem calc_Q_discharge_monotone_witness:
  "length [0, -2, 0, -4 :: real] = length [0, 1800, 3600, 5400 :: real] \<and>
   sorted [0, 1800, 3600, 5400 :: real] \<and> list_all (\<lambda>x. x \<le> 0) [0, -2, 0, -4 :: real] \<and>
   (\<exists>Q. calc_Q [0, -2, 0, -4] [0, 1800, 3600, 5400] False = Inr Q \<and> sorted Q)"
proof -
  have h1: "length [0, -2, 0, -4 :: real] = length [0, 1800, 3600, 5400 :: real]" by simp
  have h2: "sorted [0, 1800, 3600, 5400 :: real]" by simp
  have h3: "\<forall>x\<in>set [0, -2, 0, -4 :: real]. x \<le> 0" by simp
  have h3': "list_all (\<lambda>x. x \<le> 0) [0, -2, 0, -4 :: real]" by simp
  from calc_Q_discharge_monotone[OF h1 h2 h3] h1 h2 h3' show ?thesis by blast
qed

section \<open>Properties of the outlier filter\<close>

lemma clean_loop_eq:
  "clean_loop cycles sk Qd i acc idx =
     acc @ map (\<lambda>(k, j). (cycles ! j)\<lparr>cycle_number := k + 1\<rparr>)
             (enumerate idx (filter (\<lambda>j. sk ! j \<and> Qd ! j > 1 / 10) [i..<length cycles]))"
proof (induction cycles sk Qd i acc idx rule: clean_loop.induct)
  case (1 cycles sk Qd i acc idx)
  show ?case
  proof (cases "i < length cycles")
    case False
    then show ?thesis by (subst clean_loop.simps) simp
  next
    case True
    then have upt: "[i..<length cycles] = i # [Suc i..<length cycles]"
      by (rule upt_conv_Cons)
    show ?thesis
    proof (cases "sk ! i \<and> Qd ! i > 1 / 10")
      case keep: True
      have "clean_loop cycles sk Qd i acc idx =
            clean_loop cycles sk Qd (Suc i) (acc @ [(cycles ! i)\<lparr>cycle_number := idx + 1\<rparr>]) (idx + 1)"
        using True keep by (subst clean_loop.simps) simp
      also note "1.IH"(1)[OF True keep]
      finally show ?thesis using keep by (simp add: upt)
    next
      case drop: False
      have "clean_loop cycles sk Qd i acc idx = clean_loop cycles sk Qd (Suc i) acc idx"
        using True drop by (subst clean_loop.simps) auto
      also note "1.IH"(2)[OF True drop]
      finally show ?thesis using drop by (auto simp: upt)
    qed
  qed
qed

lemma medfilt_length: "medfilt v k = Inr m \<Longrightarrow> length m = length v"
  by (auto simp: medfilt_def Let_def split: if_splits)

lemma smooth_length: "smooth Qd = Inr Qd_med \<Longrightarrow> length Qd_med = length Qd"
  by (auto simp: smooth_def dest: medfilt_length split: if_splits)

lemma smooth_nonempty: "smooth Qd = Inr Qd_med \<Longrightarrow> Qd \<noteq> []"
  by (auto simp: smooth_def medfilt_def)

lemma abs_dev_nth:
  "length Qd_med = length Qd \<Longrightarrow> i < length Qd \<Longrightarrow> abs_dev Qd Qd_med ! i = \<bar>Qd ! i - Qd_med ! i\<bar>"
  by (simp add: abs_dev_def)

lemma outlier_filter_eq:
  assumes "smooth (map peak cycles) = Inr Qd_med"
  shows "outlier_filter cycles = Inr (renumber cycles (kept_positions (map peak cycles) Qd_med))"
proof -
  let ?Qd = "map peak cycles"
  let ?ths = "median (abs_dev ?Qd Qd_med)"
  have len: "length Qd_med = length ?Qd" using assms by (rule smooth_length)
  have "filter (\<lambda>j. map (\<lambda>d. d < 3 * ?ths) (abs_dev ?Qd Qd_med) ! j \<and> ?Qd ! j > 1 / 10) [0..<length cycles]
      = filter (\<lambda>i. \<bar>?Qd ! i - Qd_med ! i\<bar> < 3 * ?ths \<and> ?Qd ! i > 1 / 10) [0..<length cycles]"
  proof (rule filter_cong[OF refl])
    fix j assume "j \<in> set [0..<length cycles]"
    then have j: "j < length cycles" by simp
    then have "j < length (abs_dev ?Qd Qd_med)" using len by (simp add: abs_dev_def)
    then have "map (\<lambda>d. d < 3 * ?ths) (abs_dev ?Qd Qd_med) ! j = (abs_dev ?Qd Qd_med ! j < 3 * ?ths)"
      by simp
    also have "abs_dev ?Qd Qd_med ! j = \<bar>?Qd ! j - Qd_med ! j\<bar>"
      using abs_dev_nth[OF len, of j] j by simp
    finally show "(map (\<lambda>d. d < 3 * ?ths) (abs_dev ?Qd Qd_med) ! j \<and> ?Qd ! j > 1 / 10)
        = (\<bar>?Qd ! j - Qd_med ! j\<bar> < 3 * ?ths \<and> ?Qd ! j > 1 / 10)" by simp
  qed
  then show ?thesis
    using assms by (simp add: outlier_filter_def Let_def clean_loop_eq renumber_def kept_positions_def)
qed

lemma renumber_length: "length (renumber cycles ps) = length ps"
  by (simp add: renumber_def)

lemma renumber_nth:
  "k < length ps \<Longrightarrow> renumber cycles ps ! k = (cycles ! (ps ! k))\<lparr>cycle_number := Suc k\<rparr>"
  by (simp add: renumber_def nth_enumerate_eq)

lemma renumber_numbers: "map cycle_number (renumber cycles ps) = [1..<Suc (length ps)]"
  unfolding One_nat_def map_Suc_upt[symmetric]
  by (rule nth_equalityI) (simp_all add: renumber_length renumber_nth)

lemma kept_positions_increasing: "sorted_wrt (<) (kept_positions Qd Qd_med)"
  unfolding kept_positions_def by (rule sorted_wrt_filter) simp

lemma kept_positions_range: "set (kept_positions Qd Qd_med) \<subseteq> {..<length Qd}"
  by (auto simp: kept_positions_def)

section \<open>Properties of the battery and batch loops\<close>

lemma peak_positive_nonempty: "peak c > 1 / 10 \<Longrightarrow> discharge_capacity_in_Ah c \<noteq> []"
  by (auto simp: peak_def)

lemma initial_capacities_ok:
  "\<forall>c\<in>set cs. discharge_capacity_in_Ah c \<noteq> [] \<Longrightarrow> \<exists>caps. initial_capacities cs = Inr caps"
proof (induction cs)
  case Nil
  then show ?case by simp
next
  case (Cons c cs)
  then obtain caps where caps: "initial_capacities cs = Inr caps" by auto
  from Cons.prems obtain q qs where "discharge_capacity_in_Ah c = q # qs"
    by (cases "discharge_capacity_in_Ah c") auto
  then show ?case using caps by simp
qed

lemma assemble_ok:
  assumes "\<forall>c\<in>set clean. discharge_capacity_in_Ah c \<noteq> []"
  shows "\<exists>battery. assemble name clean = Inr battery \<and> cell_id battery = name \<and>
           cycle_data battery = clean"
proof -
  have "\<forall>c\<in>set (take 5 clean). discharge_capacity_in_Ah c \<noteq> []"
    using assms by (meson in_set_takeD)
  from initial_capacities_ok[OF this]
  obtain caps where "initial_capacities (take 5 clean) = Inr caps" by blast
  then show ?thesis by (simp add: assemble_def)
qed

lemma kept_positions_peak:
  "i \<in> set (kept_positions Qd Qd_med) \<Longrightarrow> Qd ! i > 1 / 10 \<and> i < length Qd"
  by (simp add: kept_positions_def)

lemma outlier_filter_discharge_nonempty:
  assumes "outlier_filter cycles = Inr clean"
  shows "\<forall>c\<in>set clean. discharge_capacity_in_Ah c \<noteq> []"
proof
  fix c assume c: "c \<in> set clean"
  from assms obtain Qd_med where sm: "smooth (map peak cycles) = Inr Qd_med"
    by (auto simp: outlier_filter_def Let_def split: sum.splits)
  let ?ps = "kept_positions (map peak cycles) Qd_med"
  have clean: "clean = renumber cycles ?ps"
    using outlier_filter_eq[OF sm] assms by simp
  from c obtain k where k: "k < length clean" "c = clean ! k"
    by (auto simp: in_set_conv_nth)
  then have kp: "k < length ?ps" using clean by (simp add: renumber_length)
  then have mem: "?ps ! k \<in> set ?ps" by simp
  have lt: "?ps ! k < length cycles"
    using kept_positions_peak[OF mem] by simp
  have "map peak cycles ! (?ps ! k) > 1 / 10"
    using kept_positions_peak[OF mem] by blast
  also have "map peak cycles ! (?ps ! k) = peak (cycles ! (?ps ! k))"
    using lt by (rule nth_map)
  finally have "peak (cycles ! (?ps ! k)) > 1 / 10" .
  then have "discharge_capacity_in_Ah (cycles ! (?ps ! k)) \<noteq> []"
    by (rule peak_positive_nonempty)
  moreover have "c = (cycles ! (?ps ! k))\<lparr>cycle_number := Suc k\<rparr>"
    using k kp clean by (simp add: renumber_nth)
  ultimately show "discharge_capacity_in_Ah c \<noteq> []" by simp
qed

lemma outlier_filter_cycles_nonempty: "outlier_filter cycles = Inr clean \<Longrightarrow> cycles \<noteq> []"
  by (auto simp: outlier_filter_def Let_def smooth_def medfilt_def split: sum.splits)


lemma process_battery_none:
  assumes "\<not> check (dumped st) (CSV_Battery bid)" "build_cycles df = Inr cycles"
    "outlier_filter cycles = Inr []"
  shows "process_battery check st (bid, df) =
           Inr (st\<lparr>printed := printed st @ [No_clean_cycles (CSV_Battery bid)]\<rparr>)"
  using assms outlier_filter_cycles_nonempty[OF assms(3)] by (simp add: process_battery_def)

lemma process_battery_dump:
  assumes "\<not> check (dumped st) (CSV_Battery bid)" "build_cycles df = Inr cycles"
    "outlier_filter cycles = Inr clean" "clean \<noteq> []"
  shows "\<exists>battery. process_battery check st (bid, df) =
           Inr (st\<lparr>dumped := dumped st @ [battery],
                    process_batteries_num := process_batteries_num st + 1\<rparr>) \<and>
           cell_id battery = CSV_Battery bid \<and> cycle_data battery = clean"
proof -
  from assemble_ok[OF outlier_filter_discharge_nonempty[OF assms(3)], of "CSV_Battery bid"]
  obtain battery where b: "assemble (CSV_Battery bid) clean = Inr battery"
    "cell_id battery = CSV_Battery bid" "cycle_data battery = clean" by blast
  have "process_battery check st (bid, df) =
           Inr (st\<lparr>dumped := dumped st @ [battery],
                    process_batteries_num := process_batteries_num st + 1\<rparr>)"
    using assms b(1) outlier_filter_cycles_nonempty[OF assms(3)]
    by (simp add: process_battery_def dump_single_file_def)
  then show ?thesis using b by blast
qed





section \<open>The example batteries, the batch loops and the claims about the pipeline\<close>

lemma calc_Q_discharge_pair:
  "0 < p \<Longrightarrow> calc_Q [0, - p] [t0, t0 + 3600] False = Inr [0, p]"
  by (simp add: calc_Q_def calc_Q_loop_step calc_Q_loop_stop capacity_step_def)

lemma calc_Q_charge_pair:
  "0 < p \<Longrightarrow> calc_Q [0, - p] [t0, t0 + 3600] True = Inr [0, 0]"
  by (simp add: calc_Q_def calc_Q_loop_step calc_Q_loop_stop capacity_step_def)

lemma norm_five:
  "organize_cycle_index [1, 1, 2, 2, 3, 3, 4, 4, 5, 5 :: int] = Inr [1, 1, 2, 2, 3, 3, 4, 4, 5, 5]"
  by (simp add: organize_cycle_index_def oci_loop_step oci_loop_stop)

lemma sort_five: "sort_key Test_Time_s battery_five = battery_five"
  by (simp add: battery_five_def sample_cycle_def)

lemma normalize_five: "normalize_cycle_index battery_five = Inr battery_five"
  by (simp add: normalize_cycle_index_def battery_five_def sample_cycle_def
      organize_cycle_index_def oci_loop_step oci_loop_stop)

lemma groupby_five:
  "groupby Cycle_Index battery_five =
     [(1, sample_cycle 1 1 0 2), (2, sample_cycle 1 2 7200 1), (3, sample_cycle 1 3 14400 3),
      (4, sample_cycle 1 4 21600 (1 / 10)), (5, sample_cycle 1 5 28800 10)]"
  by (simp add: groupby_def battery_five_def sample_cycle_def)

lemma make_cycle_sample:
  "0 < p \<Longrightarrow> make_cycle n (sample_cycle b c t0 p) = Inr (cycle_of n t0 p)"
  by (simp add: make_cycle_def sample_cycle_def cycle_of_def calc_Q_discharge_pair
      calc_Q_charge_pair)

lemma build_five:
  "build_cycles battery_five =
     Inr [cycle_of 0 0 2, cycle_of 1 7200 1, cycle_of 2 14400 3, cycle_of 3 21600 (1 / 10),
          cycle_of 4 28800 10]"
  by (simp add: build_cycles_def sort_five normalize_five groupby_five make_cycle_sample
      eval_nat_numeral)

lemma peak_cycle_of: "0 \<le> p \<Longrightarrow> peak (cycle_of n t0 p) = p"
  by (simp add: peak_def cycle_of_def)

lemma peaks_five: "map peak cycles_five = [2, 1, 3, 1 / 10, 10]"
  by (simp add: cycles_five_def peak_cycle_of)

lemma smooth_five: "smooth [2, 1, 3, 1 / 10, 10] = Inr [1, 1, 2, 1, 1 / 10]"
  by code_simp

lemma abs_dev_five:
  "abs_dev [2, 1, 3, 1 / 10, 10] [1, 1, 2, 1, 1 / 10] = [1, 0, 1, 9 / 10, 99 / 10]"
  by (simp add: abs_dev_def)

lemma ths_five: "median [1, 0, 1, 9 / 10, 99 / 10] = 1"
  by (simp add: median_def Let_def mod_Suc div_Suc)

lemma kept_five: "kept_positions [2, 1, 3, 1 / 10, 10] [1, 1, 2, 1, 1 / 10] = [0, 1, 2]"
  by (simp add: kept_positions_def abs_dev_five ths_five eval_nat_numeral)

lemma filter_five:
  "outlier_filter cycles_five = Inr [cycle_of 1 0 2, cycle_of 2 7200 1, cycle_of 3 14400 3]"
proof -
  have "smooth (map peak cycles_five) = Inr [1, 1, 2, 1, 1 / 10]"
    by (simp add: peaks_five smooth_five)
  from outlier_filter_eq[OF this]
  have "outlier_filter cycles_five = Inr (renumber cycles_five [0, 1, 2])"
    by (simp add: peaks_five kept_five)
  then show ?thesis
    by (simp add: renumber_def enumerate_eq_zip cycles_five_def cycle_of_def)
qed

lemma build_five': "build_cycles battery_five = Inr cycles_five"
  by (simp add: build_five cycles_five_def)

lemma build_three: "build_cycles battery_three = Inr cycles_three"
proof -
  have s: "sort_key Test_Time_s battery_three = battery_three"
    by (simp add: battery_three_def sample_cycle_def)
  have n: "normalize_cycle_index battery_three = Inr battery_three"
    by (simp add: normalize_cycle_index_def battery_three_def sample_cycle_def
        organize_cycle_index_def oci_loop_step oci_loop_stop)
  have g: "groupby Cycle_Index battery_three =
     [(1, sample_cycle 2 1 0 1), (2, sample_cycle 2 2 7200 1), (3, sample_cycle 2 3 14400 1)]"
    by (simp add: groupby_def battery_three_def sample_cycle_def)
  show ?thesis
    by (simp add: build_cycles_def s n g make_cycle_sample cycles_three_def eval_nat_numeral)
qed

lemma build_two: "build_cycles battery_two = Inr cycles_two"
proof -
  have s: "sort_key Test_Time_s battery_two = battery_two"
    by (simp add: battery_two_def sample_cycle_def)
  have n: "normalize_cycle_index battery_two = Inr battery_two"
    by (simp add: normalize_cycle_index_def battery_two_def sample_cycle_def
        organize_cycle_index_def oci_loop_step oci_loop_stop)
  have g: "groupby Cycle_Index battery_two =
     [(1, sample_cycle 3 1 0 2), (2, sample_cycle 3 2 7200 1)]"
    by (simp add: groupby_def battery_two_def sample_cycle_def)
  show ?thesis
    by (simp add: build_cycles_def s n g make_cycle_sample cycles_two_def eval_nat_numeral)
qed

lemma peaks_three: "map peak cycles_three = [1, 1, 1]"
  by (simp add: cycles_three_def peak_cycle_of)

lemma peaks_two: "map peak cycles_two = [2, 1]"
  by (simp add: cycles_two_def peak_cycle_of)

lemma smooth_three: "smooth [1, 1, 1] = Inr [1, 1, 1]"
  by code_simp

lemma smooth_two: "smooth [2, 1] = Inl ValueError"
  by code_simp

lemma smooth_four: "smooth [2, 1, 3, 1] = Inl ValueError"
  by code_simp

lemma ths_three: "median (abs_dev [1, 1, 1] [1, 1, 1]) = 0"
  by (simp add: median_def abs_dev_def Let_def mod_Suc div_Suc)

lemma filter_two: "outlier_filter cycles_two = Inl ValueError"
  by (simp add: outlier_filter_def peaks_two smooth_two)

lemma groupby_five_three:
  "groupby Battery_ID (battery_five @ battery_three) = [(1, battery_five), (2, battery_three)]"
  by (simp add: groupby_def battery_five_def battery_three_def sample_cycle_def)

lemma groupby_two: "groupby Battery_ID battery_two = [(3, battery_two)]"
  by (simp add: groupby_def battery_two_def sample_cycle_def)

lemma cycles_two_ne: "cycles_two \<noteq> []"
  by (simp add: cycles_two_def)

lemma process_battery_two: "process_battery no_check st (3, battery_two) = Inl ValueError"
  by (simp add: process_battery_def no_check_def build_two cycles_two_ne filter_two)

lemma process_two:
  "process no_check [(''a.csv'', Some battery_two), (''b.csv'', Some battery_five)] = Inl ValueError"
  by (simp add: process_def groupby_two process_battery_two)

lemma process_battery_outcome:
  assumes "outcome st = outcome st'"
  shows "map_sum id outcome (process_battery check st g) =
         map_sum id outcome (process_battery check st' g)"
  using assms
  by (cases g)
     (auto simp: process_battery_def outcome_def dump_single_file_def split: sum.splits)

lemma process_batteries_outcome:
  "outcome st = outcome st' \<Longrightarrow>
   map_sum id outcome (process_batteries check st groups) =
   map_sum id outcome (process_batteries check st' groups)"
proof (induction groups arbitrary: st st')
  case Nil
  then show ?case by simp
next
  case (Cons g groups)
  from process_battery_outcome[OF Cons.prems, of check g]
  have eq: "map_sum id outcome (process_battery check st g) =
            map_sum id outcome (process_battery check st' g)" .
  show ?case
  proof (cases "process_battery check st g")
    case (Inl e)
    with eq have "process_battery check st' g = Inl e"
      by (cases "process_battery check st' g") auto
    with Inl show ?thesis by simp
  next
    case (Inr s1)
    with eq obtain s1' where s1': "process_battery check st' g = Inr s1'" "outcome s1 = outcome s1'"
      by (cases "process_battery check st' g") auto
    from Cons.IH[OF s1'(2)] Inr s1'(1) show ?thesis by simp
  qed
qed

lemma process_files_outcome:
  "outcome st = outcome st' \<Longrightarrow>
   map_sum id outcome (process_files check st raw_files) =
   map_sum id outcome (process_files check st' raw_files)"
proof (induction raw_files arbitrary: st st')
  case Nil
  then show ?case by simp
next
  case (Cons f raw_files)
  obtain name content where f: "f = (name, content)" by (cases f)
  show ?case
  proof (cases content)
    case None
    have "outcome (st\<lparr>printed := printed st @ [Error_reading name]\<rparr>) =
          outcome (st'\<lparr>printed := printed st' @ [Error_reading name]\<rparr>)"
      using Cons.prems by (simp add: outcome_def)
    from Cons.IH[OF this] show ?thesis using f None by simp
  next
    case (Some df)
    from process_batteries_outcome[OF Cons.prems, of check "groupby Battery_ID df"]
    have eq: "map_sum id outcome (process_batteries check st (groupby Battery_ID df)) =
              map_sum id outcome (process_batteries check st' (groupby Battery_ID df))" .
    show ?thesis
    proof (cases "process_batteries check st (groupby Battery_ID df)")
      case (Inl e)
      with eq have "process_batteries check st' (groupby Battery_ID df) = Inl e"
        by (cases "process_batteries check st' (groupby Battery_ID df)") auto
      with Inl show ?thesis using f Some by simp
    next
      case (Inr s1)
      with eq obtain s1' where s1':
        "process_batteries check st' (groupby Battery_ID df) = Inr s1'" "outcome s1 = outcome s1'"
        by (cases "process_batteries check st' (groupby Battery_ID df)") auto
      from Cons.IH[OF s1'(2)] Inr s1'(1) show ?thesis using f Some by simp
    qed
  qed
qed

lemma process_files_append:
  "process_files check st (fs1 @ fs2) =
     (case process_files check st fs1 of
        Inl e \<Rightarrow> Inl e
      | Inr st1 \<Rightarrow> process_files check st1 fs2)"
proof (induction check st fs1 rule: process_files.induct)
  case (1 check st)
  then show ?case by simp
next
  case (2 check st name raw_files)
  then show ?case by simp
next
  case (3 check st name df raw_files)
  then show ?case by (simp split: sum.splits)
qed

lemma process_battery_printed:
  "process_battery check st g = Inr st' \<Longrightarrow> set (printed st) \<subseteq> set (printed st')"
  by (cases g)
     (auto simp: process_battery_def dump_single_file_def split: if_splits sum.splits)

lemma process_batteries_printed:
  "process_batteries check st groups = Inr st' \<Longrightarrow> set (printed st) \<subseteq> set (printed st')"
proof (induction groups arbitrary: st)
  case Nil
  then show ?case by simp
next
  case (Cons g groups)
  from Cons.prems obtain s1 where s1: "process_battery check st g = Inr s1"
    and rest: "process_batteries check s1 groups = Inr st'"
    by (auto split: sum.splits)
  from process_battery_printed[OF s1] Cons.IH[OF rest] show ?case by blast
qed

lemma process_files_printed:
  "process_files check st raw_files = Inr st' \<Longrightarrow> set (printed st) \<subseteq> set (printed st')"
proof (induction check st raw_files rule: process_files.induct)
  case (1 check st)
  then show ?case by simp
next
  case (2 check st name raw_files)
  then show ?case by auto
next
  case (3 check st name df raw_files)
  from "3.prems" obtain s1 where
    s1: "process_batteries check st (groupby Battery_ID df) = Inr s1"
    and rest: "process_files check s1 raw_files = Inr st'"
    by (auto split: sum.splits)
  from process_batteries_printed[OF s1] "3.IH"[OF s1 rest] show ?case by blast
qed

lemma process_files_skip_unreadable:
  "map_sum id outcome (process_files check st (fs1 @ (name, None) # fs2)) =
   map_sum id outcome (process_files check st (fs1 @ fs2))"
proof (cases "process_files check st fs1")
  case (Inl e)
  then show ?thesis by (simp add: process_files_append)
next
  case (Inr st1)
  have "outcome (st1\<lparr>printed := printed st1 @ [Error_reading name]\<rparr>) = outcome st1"
    by (simp add: outcome_def)
  from process_files_outcome[OF this, of check fs2] Inr show ?thesis
    by (simp add: process_files_append)
qed

lemma process_files_logs_unreadable:
  assumes "process_files check st (fs1 @ (name, None) # fs2) = Inr st'"
  shows "Error_reading name \<in> set (printed st')"
proof -
  from assms obtain st1 where st1: "process_files check st fs1 = Inr st1"
    and rest: "process_files check (st1\<lparr>printed := printed st1 @ [Error_reading name]\<rparr>) fs2 = Inr st'"
    by (auto simp: process_files_append split: sum.splits)
  from process_files_printed[OF rest] show ?thesis by auto
qed

lemma process_skip_unreadable:
  "map_sum id result_of (process check (fs1 @ (name, None) # fs2)) =
   map_sum id result_of (process check (fs1 @ fs2))"
proof -
  let ?s = "\<lparr>dumped = [], process_batteries_num = 0, skip_batteries_num = 0, printed = []\<rparr>"
  let ?A = "process_files check ?s (fs1 @ (name, None) # fs2)"
  let ?B = "process_files check ?s (fs1 @ fs2)"
  have eq: "map_sum id outcome ?A = map_sum id outcome ?B"
    by (rule process_files_skip_unreadable)
  have A: "map_sum id result_of (process check (fs1 @ (name, None) # fs2)) =
        map_sum id (\<lambda>(d, p, s). ((p, s), d)) (map_sum id outcome ?A)"
    by (cases ?A) (simp_all add: process_def result_of_def outcome_def)
  have B: "map_sum id result_of (process check (fs1 @ fs2)) =
        map_sum id (\<lambda>(d, p, s). ((p, s), d)) (map_sum id outcome ?B)"
  proof (cases "fs1 @ fs2 = []")
    case True
    then show ?thesis by (simp add: process_def result_of_def outcome_def)
  next
    case False
    then show ?thesis by (cases ?B) (auto simp: process_def result_of_def outcome_def)
  qed
  show ?thesis unfolding A B eq ..
qed

lemma process_logs_unreadable:
  assumes "process check (fs1 @ (name, None) # fs2) = Inr (r, d, l)"
  shows "Error_reading name \<in> set l"
proof -
  let ?s = "\<lparr>dumped = [], process_batteries_num = 0, skip_batteries_num = 0, printed = []\<rparr>"
  from assms obtain st' where st': "process_files check ?s (fs1 @ (name, None) # fs2) = Inr st'"
    and l: "l = printed st'"
    by (auto simp: process_def split: sum.splits)
  from process_files_logs_unreadable[OF st'] l show ?thesis by simp
qed

lemma kept_positions_zero_threshold:
  assumes "median (abs_dev Qd Qd_med) = 0"
  shows "kept_positions Qd Qd_med = []"
proof -
  have "\<not> (\<bar>Qd ! i - Qd_med ! i\<bar> < 3 * median (abs_dev Qd Qd_med) \<and> Qd ! i > 1 / 10)" for i
    using assms by simp
  then show ?thesis by (simp add: kept_positions_def)
qed

lemma outlier_filter_zero_threshold:
  assumes "smooth (map peak cycles) = Inr Qd_med"
    and "median (abs_dev (map peak cycles) Qd_med) = 0"
  shows "outlier_filter cycles = Inr []"
  using outlier_filter_eq[OF assms(1)] kept_positions_zero_threshold[OF assms(2)]
  by (simp add: renumber_def)

lemma filter_three: "outlier_filter cycles_three = Inr []"
proof -
  have "smooth (map peak cycles_three) = Inr [1, 1, 1]"
    by (simp add: peaks_three smooth_three)
  moreover have "median (abs_dev (map peak cycles_three) [1, 1, 1]) = 0"
    by (simp add: peaks_three ths_three)
  ultimately show ?thesis by (rule outlier_filter_zero_threshold)
qed

lemma kept_positions_iff:
  "i < length Qd \<Longrightarrow>
   i \<in> set (kept_positions Qd Qd_med) \<longleftrightarrow>
     (\<bar>Qd ! i - Qd_med ! i\<bar> < 3 * median (abs_dev Qd Qd_med) \<and> Qd ! i > 1 / 10)"
  by (simp add: kept_positions_def)

text \<open>
  Claim C1. With the threshold the median over all cycles of \<open>\<bar>peak i - smoothed i\<bar>\<close>, the
  smoothed sequence being the median-filtered peak sequence, the outlier filter keeps
  exactly the cycles \<open>i\<close> with \<open>\<bar>peak i - smoothed i\<bar> < 3 * threshold\<close> and
  \<open>peak i > 0.1\<close>: its result is those cycles, renumbered. In particular a cycle whose
  peak is exactly 0.1 Ah is rejected.
\<close>

theorem outlier_filter_keep_rule:
  assumes "smooth (map peak cycles) = Inr Qd_med"
  shows "outlier_filter cycles = Inr (renumber cycles (kept_positions (map peak cycles) Qd_med)) \<and>
     (\<forall>i<length cycles.
        i \<in> set (kept_positions (map peak cycles) Qd_med) \<longleftrightarrow>
          (\<bar>peak (cycles ! i) - Qd_med ! i\<bar> < 3 * median (abs_dev (map peak cycles) Qd_med) \<and>
           peak (cycles ! i) > 1 / 10)) \<and>
     (\<forall>i<length cycles.
        peak (cycles ! i) = 1 / 10 \<longrightarrow> i \<notin> set (kept_positions (map peak cycles) Qd_med))"
proof (intro conjI allI impI)
  show "outlier_filter cycles = Inr (renumber cycles (kept_positions (map peak cycles) Qd_med))"
    using assms by (rule outlier_filter_eq)
next
  fix i assume i: "i < length cycles"
  then have "i < length (map peak cycles)" by simp
  from kept_positions_iff[OF this, of Qd_med] i
  show "i \<in> set (kept_positions (map peak cycles) Qd_med) \<longleftrightarrow>
          (\<bar>peak (cycles ! i) - Qd_med ! i\<bar> < 3 * median (abs_dev (map peak cycles) Qd_med) \<and>
           peak (cycles ! i) > 1 / 10)"
    by simp
next
  fix i assume i: "i < length cycles" and p: "peak (cycles ! i) = 1 / 10"
  from i have "i < length (map peak cycles)" by simp
  from kept_positions_iff[OF this, of Qd_med] i p
  show "i \<notin> set (kept_positions (map peak cycles) Qd_med)" by simp
qed

theorem outlier_filter_keep_rule_witness:
  "smooth (map peak cycles_five) = Inr [1, 1, 2, 1, 1 / 10] \<and>
   outlier_filter cycles_five = Inr (renumber cycles_five [0, 1, 2]) \<and>
   peak (cycles_five ! 3) = 1 / 10 \<and>
   3 \<notin> set (kept_positions (map peak cycles_five) [1, 1, 2, 1, 1 / 10])"
proof -
  have sm: "smooth (map peak cycles_five) = Inr [1, 1, 2, 1, 1 / 10]"
    by (simp add: peaks_five smooth_five)
  have p3: "peak (cycles_five ! 3) = 1 / 10"
    by (simp add: cycles_five_def peak_cycle_of)
  have l3: "3 < length cycles_five" by (simp add: cycles_five_def)
  from outlier_filter_keep_rule[OF sm]
  have a: "outlier_filter cycles_five =
             Inr (renumber cycles_five (kept_positions (map peak cycles_five) [1, 1, 2, 1, 1 / 10]))"
    and b: "\<forall>i<length cycles_five. peak (cycles_five ! i) = 1 / 10 \<longrightarrow>
             i \<notin> set (kept_positions (map peak cycles_five) [1, 1, 2, 1, 1 / 10])"
    by blast+
  from a have "outlier_filter cycles_five = Inr (renumber cycles_five [0, 1, 2])"
    by (simp add: peaks_five kept_five)
  moreover from b l3 p3
  have "3 \<notin> set (kept_positions (map peak cycles_five) [1, 1, 2, 1, 1 / 10])" by blast
  ultimately show ?thesis using sm p3 by blast
qed

text \<open>
  Claim C6. The cycles that survive the outlier filter carry the cycle numbers
  \<open>1, ..., K\<close> in this order, and they are the cycles at strictly increasing positions of
  the original list: the \<open>k\<close>-th survivor is an original cycle with its number replaced by
  \<open>k\<close>. If none survives, the battery is reported (\<open>No_clean_cycles\<close>) and skipped:
  nothing is persisted and no counter moves.
\<close>

theorem surviving_cycles_renumbered:
  assumes "outlier_filter cycles = Inr clean_cycles"
  shows "map cycle_number clean_cycles = [1..<Suc (length clean_cycles)] \<and>
     (\<exists>ps. sorted_wrt (<) ps \<and> set ps \<subseteq> {..<length cycles} \<and>
           length ps = length clean_cycles \<and>
           (\<forall>k<length clean_cycles.
              clean_cycles ! k = (cycles ! (ps ! k))\<lparr>cycle_number := Suc k\<rparr>)) \<and>
     (clean_cycles = [] \<and> \<not> check (dumped st) (CSV_Battery bid) \<and>
      build_cycles df = Inr cycles \<longrightarrow>
        process_battery check st (bid, df) =
          Inr (st\<lparr>printed := printed st @ [No_clean_cycles (CSV_Battery bid)]\<rparr>))"
proof -
  from assms obtain Qd_med where sm: "smooth (map peak cycles) = Inr Qd_med"
    by (auto simp: outlier_filter_def Let_def split: sum.splits)
  let ?ps = "kept_positions (map peak cycles) Qd_med"
  have clean: "clean_cycles = renumber cycles ?ps"
    using outlier_filter_eq[OF sm] assms by simp
  have len: "length ?ps = length clean_cycles"
    by (simp add: clean renumber_length)
  have numbers: "map cycle_number clean_cycles = [1..<Suc (length clean_cycles)]"
    using renumber_numbers[of cycles ?ps] by (simp only: clean renumber_length)
  have range: "set ?ps \<subseteq> {..<length cycles}"
    using kept_positions_range[of "map peak cycles" Qd_med] by simp
  have nth: "\<forall>k<length clean_cycles. clean_cycles ! k = (cycles ! (?ps ! k))\<lparr>cycle_number := Suc k\<rparr>"
    using len by (simp add: clean renumber_nth)
  have order: "\<exists>ps. sorted_wrt (<) ps \<and> set ps \<subseteq> {..<length cycles} \<and>
           length ps = length clean_cycles \<and>
           (\<forall>k<length clean_cycles.
              clean_cycles ! k = (cycles ! (ps ! k))\<lparr>cycle_number := Suc k\<rparr>)"
    using kept_positions_increasing[of "map peak cycles" Qd_med] range len nth by blast
  have none: "process_battery check st (bid, df) =
          Inr (st\<lparr>printed := printed st @ [No_clean_cycles (CSV_Battery bid)]\<rparr>)"
    if "clean_cycles = []" "\<not> check (dumped st) (CSV_Battery bid)" "build_cycles df = Inr cycles"
    using process_battery_none[of check st bid df cycles] assms that by simp
  show ?thesis using numbers order none by blast
qed

theorem surviving_cycles_renumbered_witness:
  "outlier_filter cycles_five = Inr [cycle_of 1 0 2, cycle_of 2 7200 1, cycle_of 3 14400 3] \<and>
   map cycle_number [cycle_of 1 0 2, cycle_of 2 7200 1, cycle_of 3 14400 3] = [1, 2, 3] \<and>
   outlier_filter cycles_three = Inr [] \<and> \<not> no_check (dumped st0) (CSV_Battery 2) \<and>
   build_cycles battery_three = Inr cycles_three \<and>
   process_battery no_check st0 (2, battery_three) =
     Inr (st0\<lparr>printed := printed st0 @ [No_clean_cycles (CSV_Battery 2)]\<rparr>)"
proof -
  have nc: "\<not> no_check (dumped st0) (CSV_Battery 2)" by (simp add: no_check_def)
  from surviving_cycles_renumbered[OF filter_five]
  have a: "map cycle_number [cycle_of 1 0 2, cycle_of 2 7200 1, cycle_of 3 14400 3] = [1, 2, 3]"
    by (simp add: eval_nat_numeral)
  from surviving_cycles_renumbered[OF filter_three, of no_check st0 2 battery_three] nc build_three
  have b: "process_battery no_check st0 (2, battery_three) =
     Inr (st0\<lparr>printed := printed st0 @ [No_clean_cycles (CSV_Battery 2)]\<rparr>)"
    by blast
  show ?thesis using filter_five a filter_three nc build_three b by blast
qed

text \<open>
  Claim C10. If the threshold of the outlier filter is exactly 0, the strict comparison
  \<open>\<bar>peak i - smoothed i\<bar> < 3 * 0\<close> holds for no cycle: every cycle is rejected, the
  filter returns no cycle, and the battery yields no record. A battery of three equal
  cycles of 1 Ah is such a battery.
\<close>

theorem zero_threshold_rejects_every_cycle:
  assumes "smooth (map peak cycles) = Inr Qd_med"
    and "median (abs_dev (map peak cycles) Qd_med) = 0"
  shows "kept_positions (map peak cycles) Qd_med = [] \<and> outlier_filter cycles = Inr [] \<and>
     (\<not> check (dumped st) (CSV_Battery bid) \<and> build_cycles df = Inr cycles \<longrightarrow>
        process_battery check st (bid, df) =
          Inr (st\<lparr>printed := printed st @ [No_clean_cycles (CSV_Battery bid)]\<rparr>))"
proof -
  have k: "kept_positions (map peak cycles) Qd_med = []"
    using assms(2) by (rule kept_positions_zero_threshold)
  have f: "outlier_filter cycles = Inr []"
    using assms by (rule outlier_filter_zero_threshold)
  have "process_battery check st (bid, df) =
          Inr (st\<lparr>printed := printed st @ [No_clean_cycles (CSV_Battery bid)]\<rparr>)"
    if "\<not> check (dumped st) (CSV_Battery bid)" "build_cycles df = Inr cycles"
    using process_battery_none[of check st bid df cycles] that f by simp
  then show ?thesis using k f by blast
qed

theorem zero_threshold_rejects_every_cycle_witness:
  "map peak cycles_three = [1, 1, 1] \<and> smooth (map peak cycles_three) = Inr [1, 1, 1] \<and>
   median (abs_dev (map peak cycles_three) [1, 1, 1]) = 0 \<and>
   \<not> no_check (dumped st0) (CSV_Battery 2) \<and> build_cycles battery_three = Inr cycles_three \<and>
   outlier_filter cycles_three = Inr [] \<and>
   process_battery no_check st0 (2, battery_three) =
     Inr (st0\<lparr>printed := printed st0 @ [No_clean_cycles (CSV_Battery 2)]\<rparr>)"
proof -
  have sm: "smooth (map peak cycles_three) = Inr [1, 1, 1]"
    by (simp add: peaks_three smooth_three)
  have th: "median (abs_dev (map peak cycles_three) [1, 1, 1]) = 0"
    by (simp add: peaks_three ths_three)
  have nc: "\<not> no_check (dumped st0) (CSV_Battery 2)" by (simp add: no_check_def)
  from zero_threshold_rejects_every_cycle[OF sm th, of no_check st0 2 battery_three]
  show ?thesis using peaks_three sm th nc build_three by blast
qed

lemma process_battery_five:
  "\<exists>battery. process_battery no_check st (1, battery_five) =
       Inr (st\<lparr>dumped := dumped st @ [battery],
                process_batteries_num := process_batteries_num st + 1\<rparr>) \<and>
     cell_id battery = CSV_Battery 1 \<and>
     cycle_data battery = [cycle_of 1 0 2, cycle_of 2 7200 1, cycle_of 3 14400 3]"
proof -
  have "\<not> no_check (dumped st) (CSV_Battery 1)" by (simp add: no_check_def)
  moreover have "[cycle_of 1 0 2, cycle_of 2 7200 1, cycle_of 3 14400 3] \<noteq> []" by simp
  ultimately show ?thesis
    using process_battery_dump[of no_check st 1 battery_five cycles_five
        "[cycle_of 1 0 2, cycle_of 2 7200 1, cycle_of 3 14400 3]"] build_five' filter_five
    by simp
qed

lemma process_battery_three:
  "process_battery no_check st (2, battery_three) =
     Inr (st\<lparr>printed := printed st @ [No_clean_cycles (CSV_Battery 2)]\<rparr>)"
  using process_battery_none[of no_check st 2 battery_three cycles_three] build_three filter_three
  by (simp add: no_check_def)

lemma process_five_three:
  "\<exists>b. process no_check [(''a.csv'', Some (battery_five @ battery_three))] =
         Inr ((1, 0), [b], [No_clean_cycles (CSV_Battery 2)])"
proof -
  let ?s = "\<lparr>dumped = [], process_batteries_num = 0, skip_batteries_num = 0, printed = []\<rparr>"
  from process_battery_five[of ?s] obtain b where
    b: "process_battery no_check ?s (1, battery_five) =
          Inr (?s\<lparr>dumped := dumped ?s @ [b], process_batteries_num := process_batteries_num ?s + 1\<rparr>)"
    by blast
  have "process no_check [(''a.csv'', Some (battery_five @ battery_three))] =
         Inr ((1, 0), [b], [No_clean_cycles (CSV_Battery 2)])"
    by (simp add: process_def groupby_five_three b process_battery_three)
  then show ?thesis ..
qed



text \<open>
  Claim C5, as the code has it. A file that cannot be read is skipped and reported, and
  the rest of the batch is processed as if the file were not there: the counters
  returned and the records persisted are those of the batch without the file. An
  exception raised while a battery group is processed is not caught, and leaves
  \<open>process\<close>: below, the two-cycle battery of the first file aborts the batch, and the
  second file is never processed.
\<close>

theorem unreadable_file_is_skipped:
  "map_sum id result_of (process check (fs1 @ (name, None) # fs2)) =
   map_sum id result_of (process check (fs1 @ fs2)) \<and>
   (\<forall>r d l. process check (fs1 @ (name, None) # fs2) = Inr (r, d, l) \<longrightarrow>
      Error_reading name \<in> set l)"
proof (intro conjI allI impI)
  show "map_sum id result_of (process check (fs1 @ (name, None) # fs2)) =
        map_sum id result_of (process check (fs1 @ fs2))"
    by (rule process_skip_unreadable)
next
  fix r d l assume "process check (fs1 @ (name, None) # fs2) = Inr (r, d, l)"
  then show "Error_reading name \<in> set l" by (rule process_logs_unreadable)
qed

theorem unreadable_file_is_skipped_witness:
  "\<exists>b l. process no_check [(''bad.csv'', None), (''a.csv'', Some (battery_five @ battery_three))] =
            Inr ((1, 0), [b], l) \<and>
          process no_check [(''a.csv'', Some (battery_five @ battery_three))] =
            Inr ((1, 0), [b], [No_clean_cycles (CSV_Battery 2)]) \<and>
          Error_reading ''bad.csv'' \<in> set l"
proof -
  let ?a = "(''a.csv'', Some (battery_five @ battery_three))"
  from process_five_three obtain b where
    b: "process no_check [?a] = Inr ((1, 0), [b], [No_clean_cycles (CSV_Battery 2)])" by blast
  from unreadable_file_is_skipped[of no_check "[]" "''bad.csv''" "[?a]"]
  have eq: "map_sum id result_of (process no_check [(''bad.csv'', None), ?a]) =
            map_sum id result_of (process no_check [?a])"
    and lg: "\<forall>r d l. process no_check [(''bad.csv'', None), ?a] = Inr (r, d, l) \<longrightarrow>
              Error_reading ''bad.csv'' \<in> set l"
    by simp_all
  from eq b obtain l where l: "process no_check [(''bad.csv'', None), ?a] = Inr ((1, 0), [b], l)"
    by (cases "process no_check [(''bad.csv'', None), ?a]") (auto simp: result_of_def)
  with lg have "Error_reading ''bad.csv'' \<in> set l" by blast
  with l b show ?thesis by blast
qed

text \<open>
  The batch of the two-cycle battery followed by a file that would have been processed.
\<close>

theorem battery_failure_aborts_batch:
  "process no_check [(''a.csv'', Some battery_two), (''b.csv'', Some battery_five)] =
     Inl ValueError"
  by (simp add: process_def groupby_two process_battery_two)

text \<open>
  Claim C2 at a battery of two cycles, and at one of four. The window
  \<open>min (len Qd) 5\<close> is 2, or 4; it is passed to the median filter as it is, and the
  filter raises \<open>ValueError\<close>. Clamped to 1, the window would have been accepted.
\<close>

theorem even_window_is_not_clamped:
  "min (length [2, 1 :: real]) 5 = 2 \<and> smooth [2, 1] = Inl ValueError \<and>
   min (length [2, 1, 3, 1 :: real]) 5 = 4 \<and> smooth [2, 1, 3, 1] = Inl ValueError \<and>
   medfilt [2, 1] 1 = Inr [2, 1] \<and> outlier_filter cycles_two = Inl ValueError"
proof -
  have "medfilt [2, 1] 1 = Inr [2, 1]" by code_simp
  then show ?thesis by (simp add: smooth_two smooth_four filter_two)
qed

end
